theory Spec2Isabelle
  imports Main "HOL-Library.Word"
begin

section \<open>Outcomes of a call\<close>

text \<open>
  The queues of this repository are class templates over the element type, with
  \<^verbatim>\<open>size_t\<close> counters and indices. The element type is a type variable, \<^verbatim>\<open>size_t\<close> is
  a 64-bit word, and the heap array is a list whose length is the number of slots that the
  constructor allocated.

  The model describes executions in which the calls on one queue follow each other and no
  other thread touches the queue in between. The mutex is then always free when a call
  starts, the fields of the queue do not change while a call waits, and \<^verbatim>\<open>notify_one\<close>
  finds no thread to wake.

  The timed operations throw \<^verbatim>\<open>std::runtime_error\<close>; the two messages are the two
  constructors of \<open>error\<close>. An access outside the array and a remainder by zero are undefined
  behaviour in C++; the model makes each an explicit \<open>fault\<close>, so that a theorem can say that
  it does not happen.
\<close>

datatype error = PushTimeout | PopTimeout

datatype fault = OutOfBounds | DivisionByZero

datatype 'r outcome = Returned 'r | Thrown error | Undefined fault

section \<open>Waiting on a condition variable\<close>

text \<open>
  \<^verbatim>\<open>cv.wait(lock, pred)\<close> is the loop \<^verbatim>\<open>while (!pred()) wait(lock);\<close>. With no other
  thread to change the fields, every round sees the same state: the loop is left at once
  when the predicate holds and never otherwise. Not returning is the value \<open>None\<close>.
\<close>

partial_function (option) cv_wait :: "('s \<Rightarrow> bool) \<Rightarrow> 's \<Rightarrow> unit option" where
  "cv_wait pred s = (if pred s then Some () else cv_wait pred s)"

text \<open>
  \<^verbatim>\<open>cv.wait_for(lock, timeout, pred)\<close> is the loop
  \<^verbatim>\<open>while (!pred()) if (wait_until(lock, deadline) == cv_status::timeout) return pred(); return true;\<close>
  with the deadline \<^verbatim>\<open>timeout\<close> after the call. The inner wait may return before the
  deadline (a spurious wake-up) a finite number of times, \<open>wakeups\<close>, which the caller does
  not control; once the deadline has passed it reports the timeout. A timeout of zero or less
  puts the deadline at or before the call, so the first inner wait already reports it.

  Besides the value that the loop returns, the model reports how often the loop evaluated the
  predicate and for how many milliseconds the thread was parked in the inner wait. A loop
  that finds the predicate true evaluates it once and does not park. Otherwise every wake-up
  costs one more evaluation, the inner wait that reports the timeout is followed by a last
  evaluation, and the thread has been parked from the call to the deadline, whatever the
  number of pieces: \<open>left\<close> milliseconds, or none when the deadline had passed already.
\<close>

fun wait_rounds :: "int \<Rightarrow> nat \<Rightarrow> ('s \<Rightarrow> bool) \<Rightarrow> 's \<Rightarrow> bool \<times> nat \<times> int" where
  "wait_rounds left 0 pred s =
     (if pred s then (True, 1, 0) else (pred s, 2, max 0 left))"
| "wait_rounds left (Suc n) pred s =
     (if pred s then (True, 1, 0)
      else (case wait_rounds left n pred s of (b, k, t) \<Rightarrow> (b, Suc k, t)))"

definition wait_for :: "int \<Rightarrow> nat \<Rightarrow> ('s \<Rightarrow> bool) \<Rightarrow> 's \<Rightarrow> bool \<times> nat \<times> int" where
  "wait_for timeout wakeups pred s =
     wait_rounds timeout (if timeout \<le> 0 then 0 else wakeups) pred s"

section \<open>The queue of enqueue.h and enqueue.cpp\<close>

record 'a safe_queue =
  queue_data :: "'a list"
  maximum_capacity :: "64 word"
  current_size :: "64 word"
  first :: "64 word"
  last_ix :: "64 word"

text \<open>
  The constructor: \<^verbatim>\<open>new T[maximum_capacity]\<close> leaves the slots with whatever a
  default-initialised \<^verbatim>\<open>T\<close> holds; \<open>fill\<close> gives that content for every slot. The
  allocation is taken to succeed.
\<close>

definition safe_queue_new :: "64 word \<Rightarrow> (nat \<Rightarrow> 'a) \<Rightarrow> 'a safe_queue" where
  "safe_queue_new max_capacity fill =
     \<lparr>queue_data = map fill [0..<unat max_capacity],
      maximum_capacity = max_capacity, current_size = 0, first = 0, last_ix = 0\<rparr>"

definition safe_queue_size :: "'a safe_queue \<Rightarrow> 64 word" where
  "safe_queue_size q = current_size q"

definition safe_queue_empty :: "'a safe_queue \<Rightarrow> bool" where
  "safe_queue_empty q \<longleftrightarrow> current_size q = 0"

definition safe_queue_full :: "'a safe_queue \<Rightarrow> bool" where
  "safe_queue_full q \<longleftrightarrow> current_size q = maximum_capacity q"

text \<open>
  \<open>push(item)\<close>: wait until \<open>current_size < maximum_capacity\<close>, store the item at
  \<open>last\<close>, advance \<open>last\<close> modulo the capacity, count the item. The result is \<open>None\<close> when
  the call never returns, and otherwise the outcome with the queue as the call leaves it.
\<close>

definition safe_queue_push ::
  "'a safe_queue \<Rightarrow> 'a \<Rightarrow> (unit outcome \<times> 'a safe_queue) option" where
  "safe_queue_push q item =
     (case cv_wait (\<lambda>q. current_size q < maximum_capacity q) q of
        None \<Rightarrow> None
      | Some _ \<Rightarrow>
          Some (if \<not> unat (last_ix q) < length (queue_data q) then (Undefined OutOfBounds, q)
                else if maximum_capacity q = 0 then (Undefined DivisionByZero, q)
                else (Returned (),
                      q\<lparr>queue_data := (queue_data q)[unat (last_ix q) := item],
                        last_ix := (last_ix q + 1) mod maximum_capacity q,
                        current_size := current_size q + 1\<rparr>)))"

text \<open>
  \<open>push(item, timeout)\<close>: the same, with a bounded wait; when the wait reports that the
  predicate is still false, the call throws and has changed nothing. The wait of the timed
  push has a name of its own, so that its report can be spoken about.
\<close>

definition safe_queue_push_wait :: "'a safe_queue \<Rightarrow> int \<Rightarrow> nat \<Rightarrow> bool \<times> nat \<times> int" where
  "safe_queue_push_wait q timeout wakeups =
     wait_for timeout wakeups (\<lambda>q. current_size q < maximum_capacity q) q"

definition safe_queue_push_for ::
  "'a safe_queue \<Rightarrow> 'a \<Rightarrow> int \<Rightarrow> nat \<Rightarrow> bool outcome \<times> 'a safe_queue" where
  "safe_queue_push_for q item timeout wakeups =
     (if \<not> fst (safe_queue_push_wait q timeout wakeups)
      then (Thrown PushTimeout, q)
      else if \<not> unat (last_ix q) < length (queue_data q) then (Undefined OutOfBounds, q)
      else if maximum_capacity q = 0 then (Undefined DivisionByZero, q)
      else (Returned True,
            q\<lparr>queue_data := (queue_data q)[unat (last_ix q) := item],
              last_ix := (last_ix q + 1) mod maximum_capacity q,
              current_size := current_size q + 1\<rparr>))"

text \<open>
  \<open>pop()\<close>: wait until \<open>current_size > 0\<close>, read the item at \<open>first\<close>, advance \<open>first\<close>
  modulo the capacity, discount the item, return it.
\<close>

definition safe_queue_pop :: "'a safe_queue \<Rightarrow> ('a outcome \<times> 'a safe_queue) option" where
  "safe_queue_pop q =
     (case cv_wait (\<lambda>q. current_size q > 0) q of
        None \<Rightarrow> None
      | Some _ \<Rightarrow>
          Some (if \<not> unat (first q) < length (queue_data q) then (Undefined OutOfBounds, q)
                else if maximum_capacity q = 0 then (Undefined DivisionByZero, q)
                else (Returned (queue_data q ! unat (first q)),
                      q\<lparr>first := (first q + 1) mod maximum_capacity q,
                        current_size := current_size q - 1\<rparr>)))"

text \<open>
  \<open>pop(item, timeout)\<close>: \<open>item\<close> is a reference to a variable of the caller; the model takes
  the value it holds at the call and returns the value it holds afterwards.
\<close>

definition safe_queue_pop_wait :: "'a safe_queue \<Rightarrow> int \<Rightarrow> nat \<Rightarrow> bool \<times> nat \<times> int" where
  "safe_queue_pop_wait q timeout wakeups =
     wait_for timeout wakeups (\<lambda>q. current_size q > 0) q"

definition safe_queue_pop_for ::
  "'a safe_queue \<Rightarrow> 'a \<Rightarrow> int \<Rightarrow> nat \<Rightarrow> bool outcome \<times> 'a \<times> 'a safe_queue" where
  "safe_queue_pop_for q item timeout wakeups =
     (if \<not> fst (safe_queue_pop_wait q timeout wakeups)
      then (Thrown PopTimeout, item, q)
      else if \<not> unat (first q) < length (queue_data q) then (Undefined OutOfBounds, item, q)
      else if maximum_capacity q = 0 then (Undefined DivisionByZero, item, q)
      else (Returned True, queue_data q ! unat (first q),
            q\<lparr>first := (first q + 1) mod maximum_capacity q,
              current_size := current_size q - 1\<rparr>))"

section \<open>Sequences of calls\<close>

text \<open>
  A client that uses the queue from one thread issues calls one after the other. A call
  names the member function and its arguments; for the timed calls these are the timeout in
  milliseconds and the number of early wake-ups that the wait meets, and for the timed pop
  also the value that the variable behind the reference holds.
\<close>

datatype 'a call =
    Size | Empty | Full
  | Push 'a | PushFor 'a int nat
  | Pop | PopFor 'a int nat

text \<open>
  What the client sees of a call: the value returned (for the timed pop together with the
  variable behind the reference), the exception, the fault, nothing at all because the
  call never returns, or the refusal of the compiler to translate the call.
\<close>

datatype 'a reply =
    Count "64 word" | Flag bool | Done | Item 'a | FlagItem bool 'a
  | Throws error | Fault fault | Blocks | IllFormed

fun reply_of :: "('r \<Rightarrow> 'a reply) \<Rightarrow> 'r outcome \<Rightarrow> 'a reply" where
  "reply_of f (Returned r) = f r"
| "reply_of f (Thrown e) = Throws e"
| "reply_of f (Undefined u) = Fault u"

fun safe_queue_call :: "'a call \<Rightarrow> 'a safe_queue \<Rightarrow> 'a reply \<times> 'a safe_queue" where
  "safe_queue_call Size q = (Count (safe_queue_size q), q)"
| "safe_queue_call Empty q = (Flag (safe_queue_empty q), q)"
| "safe_queue_call Full q = (Flag (safe_queue_full q), q)"
| "safe_queue_call (Push x) q =
     (case safe_queue_push q x of
        None \<Rightarrow> (Blocks, q)
      | Some (r, q') \<Rightarrow> (reply_of (\<lambda>_. Done) r, q'))"
| "safe_queue_call (PushFor x t w) q =
     (case safe_queue_push_for q x t w of (r, q') \<Rightarrow> (reply_of Flag r, q'))"
| "safe_queue_call Pop q =
     (case safe_queue_pop q of
        None \<Rightarrow> (Blocks, q)
      | Some (r, q') \<Rightarrow> (reply_of Item r, q'))"
| "safe_queue_call (PopFor y t w) q =
     (case safe_queue_pop_for q y t w of (r, y', q') \<Rightarrow> (reply_of (\<lambda>b. FlagItem b y') r, q'))"

text \<open>
  The client catches the exceptions of the timed calls and goes on, as the test suite and
  the demo program do. A call that never returns ends the sequence, and so does a fault,
  after which nothing is known about the program, and so does a call that the compiler
  refuses.
\<close>

fun halts :: "'a reply \<Rightarrow> bool" where
  "halts Blocks = True"
| "halts (Fault _) = True"
| "halts IllFormed = True"
| "halts _ = False"

fun is_observer :: "'a call \<Rightarrow> bool" where
  "is_observer Size = True"
| "is_observer Empty = True"
| "is_observer Full = True"
| "is_observer _ = False"

fun run :: "('c \<Rightarrow> 's \<Rightarrow> 'a reply \<times> 's) \<Rightarrow> 'c list \<Rightarrow> 's \<Rightarrow> 'a reply list \<times> 's" where
  "run call [] q = ([], q)"
| "run call (c # cs) q =
     (case call c q of
        (r, q') \<Rightarrow>
          if halts r then ([r], q')
          else (case run call cs q' of (rs, q'') \<Rightarrow> (r # rs, q'')))"

text \<open>The items that went in and the items that came out, in the order of the calls.\<close>

fun pushed :: "'a call \<Rightarrow> 'a reply \<Rightarrow> 'a list" where
  "pushed (Push x) Done = [x]"
| "pushed (PushFor x t w) (Flag True) = [x]"
| "pushed _ _ = []"

fun popped :: "'a call \<Rightarrow> 'a reply \<Rightarrow> 'a list" where
  "popped Pop (Item y) = [y]"
| "popped (PopFor y t w) (FlagItem True z) = [z]"
| "popped _ _ = []"

definition pushes :: "'a call list \<Rightarrow> 'a reply list \<Rightarrow> 'a list" where
  "pushes cs rs = concat (map2 pushed cs rs)"

definition pops :: "'a call list \<Rightarrow> 'a reply list \<Rightarrow> 'a list" where
  "pops cs rs = concat (map2 popped cs rs)"

fun is_pop :: "'a call \<Rightarrow> bool" where
  "is_pop Pop = True"
| "is_pop (PopFor y t w) = True"
| "is_pop _ = False"

section \<open>The state invariant and the live items\<close>

text \<open>
  The array has as many slots as the capacity says, the count does not exceed the capacity,
  and for a positive capacity both indices are below it and the count is congruent to the
  distance from \<open>first\<close> to \<open>last\<close> modulo the capacity.
\<close>

definition queue_inv :: "'a safe_queue \<Rightarrow> bool" where
  "queue_inv q \<longleftrightarrow>
     length (queue_data q) = unat (maximum_capacity q) \<and>
     current_size q \<le> maximum_capacity q \<and>
     (maximum_capacity q \<noteq> 0 \<longrightarrow>
        first q < maximum_capacity q \<and> last_ix q < maximum_capacity q \<and>
        uint (current_size q) mod uint (maximum_capacity q) =
          (uint (last_ix q) - uint (first q)) mod uint (maximum_capacity q))"

text \<open>
  The invariant in the wording of section 3 of the specification, for comparison: the count
  is equal to, not only congruent to, the distance modulo the capacity.
\<close>

definition queue_inv_equal :: "'a safe_queue \<Rightarrow> bool" where
  "queue_inv_equal q \<longleftrightarrow>
     length (queue_data q) = unat (maximum_capacity q) \<and>
     current_size q \<le> maximum_capacity q \<and>
     (maximum_capacity q \<noteq> 0 \<longrightarrow>
        first q < maximum_capacity q \<and> last_ix q < maximum_capacity q \<and>
        uint (current_size q) =
          (uint (last_ix q) - uint (first q)) mod uint (maximum_capacity q))"

text \<open>The live items: the \<open>current_size\<close> slots from \<open>first\<close> on, around the ring.\<close>

definition contents :: "'a safe_queue \<Rightarrow> 'a list" where
  "contents q =
     map (\<lambda>i. queue_data q ! ((unat (first q) + i) mod unat (maximum_capacity q)))
       [0..<unat (current_size q)]"

definition abstract :: "'a safe_queue \<Rightarrow> 64 word \<times> 'a list" where
  "abstract q = (maximum_capacity q, contents q)"

section \<open>The bounded FIFO of the specification\<close>

text \<open>
  Section 4.1 of the specification in its own words, on a capacity and the list of the items
  in the queue, oldest first: a push appends when there is room, a pop takes the head when
  there is one; the untimed calls wait forever otherwise and the timed ones fail with their
  timeout. It serves to compare the implementations with.
\<close>

fun fifo_call :: "'a call \<Rightarrow> 64 word \<times> 'a list \<Rightarrow> 'a reply \<times> 64 word \<times> 'a list" where
  "fifo_call Size (c, xs) = (Count (of_nat (length xs)), c, xs)"
| "fifo_call Empty (c, xs) = (Flag (xs = []), c, xs)"
| "fifo_call Full (c, xs) = (Flag (length xs = unat c), c, xs)"
| "fifo_call (Push x) (c, xs) =
     (if length xs < unat c then (Done, c, xs @ [x]) else (Blocks, c, xs))"
| "fifo_call (PushFor x t w) (c, xs) =
     (if length xs < unat c then (Flag True, c, xs @ [x]) else (Throws PushTimeout, c, xs))"
| "fifo_call Pop (c, xs) =
     (case xs of [] \<Rightarrow> (Blocks, c, xs) | z # zs \<Rightarrow> (Item z, c, zs))"
| "fifo_call (PopFor y t w) (c, xs) =
     (case xs of [] \<Rightarrow> (Throws PopTimeout, c, xs) | z # zs \<Rightarrow> (FlagItem True z, c, zs))"

section \<open>The queue of queue.h\<close>

text \<open>
  \<^verbatim>\<open>ThreadSafeQueue\<close> holds its array in a \<^verbatim>\<open>unique_ptr\<close>; \<^verbatim>\<open>make_unique<T[]>\<close>
  value-initialises every slot, which for a class type runs its default constructor slot by
  slot; \<open>fill\<close> gives the resulting content of every slot. Its mutex is \<^verbatim>\<open>mutable\<close>, as in
  enqueue.h.
\<close>

record 'a ThreadSafeQueue =
  buffer :: "'a list"
  capacity :: "64 word"
  count :: "64 word"
  front :: "64 word"
  rear :: "64 word"

definition ThreadSafeQueue_new :: "64 word \<Rightarrow> (nat \<Rightarrow> 'a) \<Rightarrow> 'a ThreadSafeQueue" where
  "ThreadSafeQueue_new max_capacity fill =
     \<lparr>buffer = map fill [0..<unat max_capacity],
      capacity = max_capacity, count = 0, front = 0, rear = 0\<rparr>"

definition ThreadSafeQueue_size :: "'a ThreadSafeQueue \<Rightarrow> 64 word" where
  "ThreadSafeQueue_size q = count q"

definition ThreadSafeQueue_empty :: "'a ThreadSafeQueue \<Rightarrow> bool" where
  "ThreadSafeQueue_empty q \<longleftrightarrow> count q = 0"

definition ThreadSafeQueue_full :: "'a ThreadSafeQueue \<Rightarrow> bool" where
  "ThreadSafeQueue_full q \<longleftrightarrow> count q = capacity q"

definition ThreadSafeQueue_push ::
  "'a ThreadSafeQueue \<Rightarrow> 'a \<Rightarrow> (unit outcome \<times> 'a ThreadSafeQueue) option" where
  "ThreadSafeQueue_push q item =
     (case cv_wait (\<lambda>q. count q < capacity q) q of
        None \<Rightarrow> None
      | Some _ \<Rightarrow>
          Some (if \<not> unat (rear q) < length (buffer q) then (Undefined OutOfBounds, q)
                else if capacity q = 0 then (Undefined DivisionByZero, q)
                else (Returned (),
                      q\<lparr>buffer := (buffer q)[unat (rear q) := item],
                        rear := (rear q + 1) mod capacity q,
                        count := count q + 1\<rparr>)))"

definition ThreadSafeQueue_push_for ::
  "'a ThreadSafeQueue \<Rightarrow> 'a \<Rightarrow> int \<Rightarrow> nat \<Rightarrow> bool outcome \<times> 'a ThreadSafeQueue" where
  "ThreadSafeQueue_push_for q item timeout wakeups =
     (if \<not> fst (wait_for timeout wakeups (\<lambda>q. count q < capacity q) q)
      then (Thrown PushTimeout, q)
      else if \<not> unat (rear q) < length (buffer q) then (Undefined OutOfBounds, q)
      else if capacity q = 0 then (Undefined DivisionByZero, q)
      else (Returned True,
            q\<lparr>buffer := (buffer q)[unat (rear q) := item],
              rear := (rear q + 1) mod capacity q,
              count := count q + 1\<rparr>))"

definition ThreadSafeQueue_pop ::
  "'a ThreadSafeQueue \<Rightarrow> ('a outcome \<times> 'a ThreadSafeQueue) option" where
  "ThreadSafeQueue_pop q =
     (case cv_wait (\<lambda>q. count q > 0) q of
        None \<Rightarrow> None
      | Some _ \<Rightarrow>
          Some (if \<not> unat (front q) < length (buffer q) then (Undefined OutOfBounds, q)
                else if capacity q = 0 then (Undefined DivisionByZero, q)
                else (Returned (buffer q ! unat (front q)),
                      q\<lparr>front := (front q + 1) mod capacity q,
                        count := count q - 1\<rparr>)))"

definition ThreadSafeQueue_pop_for ::
  "'a ThreadSafeQueue \<Rightarrow> 'a \<Rightarrow> int \<Rightarrow> nat \<Rightarrow> bool outcome \<times> 'a \<times> 'a ThreadSafeQueue" where
  "ThreadSafeQueue_pop_for q item timeout wakeups =
     (if \<not> fst (wait_for timeout wakeups (\<lambda>q. count q > 0) q)
      then (Thrown PopTimeout, item, q)
      else if \<not> unat (front q) < length (buffer q) then (Undefined OutOfBounds, item, q)
      else if capacity q = 0 then (Undefined DivisionByZero, item, q)
      else (Returned True, buffer q ! unat (front q),
            q\<lparr>front := (front q + 1) mod capacity q,
              count := count q - 1\<rparr>))"

fun ThreadSafeQueue_call ::
  "'a call \<Rightarrow> 'a ThreadSafeQueue \<Rightarrow> 'a reply \<times> 'a ThreadSafeQueue" where
  "ThreadSafeQueue_call Size q = (Count (ThreadSafeQueue_size q), q)"
| "ThreadSafeQueue_call Empty q = (Flag (ThreadSafeQueue_empty q), q)"
| "ThreadSafeQueue_call Full q = (Flag (ThreadSafeQueue_full q), q)"
| "ThreadSafeQueue_call (Push x) q =
     (case ThreadSafeQueue_push q x of
        None \<Rightarrow> (Blocks, q)
      | Some (r, q') \<Rightarrow> (reply_of (\<lambda>_. Done) r, q'))"
| "ThreadSafeQueue_call (PushFor x t w) q =
     (case ThreadSafeQueue_push_for q x t w of (r, q') \<Rightarrow> (reply_of Flag r, q'))"
| "ThreadSafeQueue_call Pop q =
     (case ThreadSafeQueue_pop q of
        None \<Rightarrow> (Blocks, q)
      | Some (r, q') \<Rightarrow> (reply_of Item r, q'))"
| "ThreadSafeQueue_call (PopFor y t w) q =
     (case ThreadSafeQueue_pop_for q y t w of
        (r, y', q') \<Rightarrow> (reply_of (\<lambda>b. FlagItem b y') r, q'))"

definition ThreadSafeQueue_abstract :: "'a ThreadSafeQueue \<Rightarrow> 64 word \<times> 'a list" where
  "ThreadSafeQueue_abstract q =
     (capacity q,
      map (\<lambda>i. buffer q ! ((unat (front q) + i) mod unat (capacity q))) [0..<unat (count q)])"

section \<open>The queue of queue.cpp\<close>

text \<open>
  The class of queue.cpp is also called \<^verbatim>\<open>safe_queue\<close>; its array is \<^verbatim>\<open>queue_size\<close> and
  its count \<^verbatim>\<open>enqueue_element\<close>. The names that it shares with enqueue.h carry a 2 here.
\<close>

record 'a queue_cpp =
  queue_size :: "'a list"
  maximum_capacity2 :: "64 word"
  enqueue_element :: "64 word"
  first2 :: "64 word"
  last2 :: "64 word"

definition queue_cpp_new :: "64 word \<Rightarrow> (nat \<Rightarrow> 'a) \<Rightarrow> 'a queue_cpp" where
  "queue_cpp_new max_maximum_capacity fill =
     \<lparr>queue_size = map fill [0..<unat max_maximum_capacity],
      maximum_capacity2 = max_maximum_capacity, enqueue_element = 0, first2 = 0, last2 = 0\<rparr>"

text \<open>
  queue.cpp declares \<^verbatim>\<open>std::mutex mutex_sync\<close> without \<^verbatim>\<open>mutable\<close>. Inside the \<^verbatim>\<open>const\<close>
  member functions \<open>size\<close>, \<open>empty\<close> and \<open>full\<close> the member therefore has the type
  \<^verbatim>\<open>const std::mutex\<close>, and \<^verbatim>\<open>std::lock_guard<std::mutex>\<close> has no constructor that takes
  one. The first statement of each of the three functions is ill-formed: the compiler rejects
  the function as soon as a program calls it, and no value is ever returned. \<open>None\<close> stands
  for that.
\<close>

definition queue_cpp_size :: "'a queue_cpp \<Rightarrow> 64 word option" where
  "queue_cpp_size q = None"

definition queue_cpp_empty :: "'a queue_cpp \<Rightarrow> bool option" where
  "queue_cpp_empty q = None"

definition queue_cpp_full :: "'a queue_cpp \<Rightarrow> bool option" where
  "queue_cpp_full q = None"

definition queue_cpp_push ::
  "'a queue_cpp \<Rightarrow> 'a \<Rightarrow> (unit outcome \<times> 'a queue_cpp) option" where
  "queue_cpp_push q item =
     (case cv_wait (\<lambda>q. enqueue_element q < maximum_capacity2 q) q of
        None \<Rightarrow> None
      | Some _ \<Rightarrow>
          Some (if \<not> unat (last2 q) < length (queue_size q) then (Undefined OutOfBounds, q)
                else if maximum_capacity2 q = 0 then (Undefined DivisionByZero, q)
                else (Returned (),
                      q\<lparr>queue_size := (queue_size q)[unat (last2 q) := item],
                        last2 := (last2 q + 1) mod maximum_capacity2 q,
                        enqueue_element := enqueue_element q + 1\<rparr>)))"

definition queue_cpp_push_for ::
  "'a queue_cpp \<Rightarrow> 'a \<Rightarrow> int \<Rightarrow> nat \<Rightarrow> bool outcome \<times> 'a queue_cpp" where
  "queue_cpp_push_for q item timeout wakeups =
     (if \<not> fst (wait_for timeout wakeups (\<lambda>q. enqueue_element q < maximum_capacity2 q) q)
      then (Thrown PushTimeout, q)
      else if \<not> unat (last2 q) < length (queue_size q) then (Undefined OutOfBounds, q)
      else if maximum_capacity2 q = 0 then (Undefined DivisionByZero, q)
      else (Returned True,
            q\<lparr>queue_size := (queue_size q)[unat (last2 q) := item],
              last2 := (last2 q + 1) mod maximum_capacity2 q,
              enqueue_element := enqueue_element q + 1\<rparr>))"

definition queue_cpp_pop :: "'a queue_cpp \<Rightarrow> ('a outcome \<times> 'a queue_cpp) option" where
  "queue_cpp_pop q =
     (case cv_wait (\<lambda>q. enqueue_element q > 0) q of
        None \<Rightarrow> None
      | Some _ \<Rightarrow>
          Some (if \<not> unat (first2 q) < length (queue_size q) then (Undefined OutOfBounds, q)
                else if maximum_capacity2 q = 0 then (Undefined DivisionByZero, q)
                else (Returned (queue_size q ! unat (first2 q)),
                      q\<lparr>first2 := (first2 q + 1) mod maximum_capacity2 q,
                        enqueue_element := enqueue_element q - 1\<rparr>)))"

definition queue_cpp_pop_for ::
  "'a queue_cpp \<Rightarrow> 'a \<Rightarrow> int \<Rightarrow> nat \<Rightarrow> bool outcome \<times> 'a \<times> 'a queue_cpp" where
  "queue_cpp_pop_for q item timeout wakeups =
     (if \<not> fst (wait_for timeout wakeups (\<lambda>q. enqueue_element q > 0) q)
      then (Thrown PopTimeout, item, q)
      else if \<not> unat (first2 q) < length (queue_size q) then (Undefined OutOfBounds, item, q)
      else if maximum_capacity2 q = 0 then (Undefined DivisionByZero, item, q)
      else (Returned True, queue_size q ! unat (first2 q),
            q\<lparr>first2 := (first2 q + 1) mod maximum_capacity2 q,
              enqueue_element := enqueue_element q - 1\<rparr>))"

fun queue_cpp_call :: "'a call \<Rightarrow> 'a queue_cpp \<Rightarrow> 'a reply \<times> 'a queue_cpp" where
  "queue_cpp_call Size q =
     (case queue_cpp_size q of None \<Rightarrow> (IllFormed, q) | Some n \<Rightarrow> (Count n, q))"
| "queue_cpp_call Empty q =
     (case queue_cpp_empty q of None \<Rightarrow> (IllFormed, q) | Some b \<Rightarrow> (Flag b, q))"
| "queue_cpp_call Full q =
     (case queue_cpp_full q of None \<Rightarrow> (IllFormed, q) | Some b \<Rightarrow> (Flag b, q))"
| "queue_cpp_call (Push x) q =
     (case queue_cpp_push q x of
        None \<Rightarrow> (Blocks, q)
      | Some (r, q') \<Rightarrow> (reply_of (\<lambda>_. Done) r, q'))"
| "queue_cpp_call (PushFor x t w) q =
     (case queue_cpp_push_for q x t w of (r, q') \<Rightarrow> (reply_of Flag r, q'))"
| "queue_cpp_call Pop q =
     (case queue_cpp_pop q of
        None \<Rightarrow> (Blocks, q)
      | Some (r, q') \<Rightarrow> (reply_of Item r, q'))"
| "queue_cpp_call (PopFor y t w) q =
     (case queue_cpp_pop_for q y t w of
        (r, y', q') \<Rightarrow> (reply_of (\<lambda>b. FlagItem b y') r, q'))"

definition queue_cpp_abstract :: "'a queue_cpp \<Rightarrow> 64 word \<times> 'a list" where
  "queue_cpp_abstract q =
     (maximum_capacity2 q,
      map (\<lambda>i. queue_size q ! ((unat (first2 q) + i) mod unat (maximum_capacity2 q)))
        [0..<unat (enqueue_element q)])"

section \<open>One state under three sets of field names\<close>

definition of_ThreadSafeQueue :: "'a ThreadSafeQueue \<Rightarrow> 'a safe_queue" where
  "of_ThreadSafeQueue q =
     \<lparr>queue_data = buffer q, maximum_capacity = capacity q, current_size = count q,
      first = front q, last_ix = rear q\<rparr>"

definition of_queue_cpp :: "'a queue_cpp \<Rightarrow> 'a safe_queue" where
  "of_queue_cpp q =
     \<lparr>queue_data = queue_size q, maximum_capacity = maximum_capacity2 q,
      current_size = enqueue_element q, first = first2 q, last_ix = last2 q\<rparr>"

text \<open>
  The three assignments of both push variants and the two assignments of both pop variants,
  as names for the proofs.
\<close>

abbreviation enqueued :: "'a safe_queue \<Rightarrow> 'a \<Rightarrow> 'a safe_queue" where
  "enqueued q item \<equiv>
     q\<lparr>queue_data := (queue_data q)[unat (last_ix q) := item],
       last_ix := (last_ix q + 1) mod maximum_capacity q,
       current_size := current_size q + 1\<rparr>"

abbreviation dequeued :: "'a safe_queue \<Rightarrow> 'a safe_queue" where
  "dequeued q \<equiv>
     q\<lparr>first := (first q + 1) mod maximum_capacity q,
       current_size := current_size q - 1\<rparr>"

section \<open>Basic facts about waiting\<close>

lemma cv_wait_holds: "pred s \<Longrightarrow> cv_wait pred s = Some ()"
  by (subst cv_wait.simps) simp

lemma cv_wait_Some_holds:
  assumes "cv_wait pred s = Some u"
  shows "pred s"
proof (rule cv_wait.raw_induct [where P = "\<lambda>p s u. p s" and pred = pred and s = s and y = u])
  show "cv_wait pred s = Some u" by (rule assms)
next
  fix w :: "('s \<Rightarrow> bool) \<Rightarrow> 's \<Rightarrow> unit option" and p s y
  assume ih: "\<And>p s y. w p s = Some y \<Longrightarrow> p s"
    and eq: "(if p s then Some () else w p s) = Some y"
  show "p s"
  proof (cases "p s")
    case False
    with eq have "w p s = Some y" by simp
    then show ?thesis by (rule ih)
  qed
qed

lemma cv_wait_never: "\<not> pred s \<Longrightarrow> cv_wait pred s = None"
  using cv_wait_Some_holds [of pred s] by (cases "cv_wait pred s") auto

lemma wait_rounds_eq: "fst (wait_rounds left n pred s) = pred s"
  by (induction n) (auto split: prod.splits)

lemma wait_for_eq: "fst (wait_for timeout wakeups pred s) = pred s"
  by (simp add: wait_for_def wait_rounds_eq)

lemma push_wait_eq:
  "fst (safe_queue_push_wait q timeout wakeups) \<longleftrightarrow> current_size q < maximum_capacity q"
  by (simp add: safe_queue_push_wait_def wait_for_eq)

lemma pop_wait_eq: "fst (safe_queue_pop_wait q timeout wakeups) \<longleftrightarrow> 0 < current_size q"
  by (simp add: safe_queue_pop_wait_def wait_for_eq)

section \<open>Arithmetic of the ring\<close>

lemma unat_succ:
  fixes x c :: "64 word"
  assumes "x < c"
  shows "unat (x + 1) = Suc (unat x)"
proof -
  have "unat x < unat c" using assms by (rule unat_mono)
  moreover have "unat c < 2 ^ LENGTH(64)" by (rule unsigned_less)
  ultimately have "unat x + unat (1 :: 64 word) < 2 ^ LENGTH(64)" by simp
  then have "unat (x + 1) = unat x + unat (1 :: 64 word)" by (simp only: unat_add_lem)
  then show ?thesis by simp
qed

lemma unat_pred:
  fixes x :: "64 word"
  assumes "0 < x"
  shows "unat (x - 1) = unat x - 1"
  using assms by (simp add: unat_minus_one word_greater_zero_iff)

lemma ring_distinct:
  fixes f i j c :: nat
  assumes "i < j" "j < c"
  shows "(f + i) mod c \<noteq> (f + j) mod c"
proof
  assume "(f + i) mod c = (f + j) mod c"
  then have "(f + j) mod c = (f + i) mod c" by simp
  moreover have "f + i \<le> f + j" using assms by simp
  ultimately have "c dvd (f + j) - (f + i)" by (simp only: mod_eq_dvd_iff_nat)
  then have "c dvd j - i" by simp
  moreover have "0 < j - i" "j - i < c" using assms by simp_all
  ultimately show False by (simp add: nat_dvd_not_less)
qed

lemma ring_next:
  fixes f i c :: nat
  shows "(Suc f mod c + i) mod c = Suc (f + i) mod c"
  by (metis add_Suc mod_add_left_eq)

lemma ring_congruence:
  fixes l f n c :: nat
  assumes "l < c"
  shows "int n mod int c = (int l - int f) mod int c \<longleftrightarrow> l = (f + n) mod c"
proof -
  have "int n mod int c = (int l - int f) mod int c \<longleftrightarrow>
        (int f + int n) mod int c = int l mod int c"
    by (simp add: mod_eq_dvd_iff algebra_simps)
  also have "\<dots> \<longleftrightarrow> int ((f + n) mod c) = int (l mod c)"
    by (simp add: zmod_int)
  also have "\<dots> \<longleftrightarrow> l = (f + n) mod c"
    using assms by auto
  finally show ?thesis .
qed

lemma queue_inv_last:
  assumes "queue_inv q" "maximum_capacity q \<noteq> 0"
  shows "unat (last_ix q) = (unat (first q) + unat (current_size q)) mod unat (maximum_capacity q)"
proof -
  have "unat (last_ix q) < unat (maximum_capacity q)"
    using assms by (simp add: queue_inv_def unat_mono)
  moreover have "int (unat (current_size q)) mod int (unat (maximum_capacity q)) =
      (int (unat (last_ix q)) - int (unat (first q))) mod int (unat (maximum_capacity q))"
    using assms by (simp add: queue_inv_def)
  ultimately show ?thesis by (simp only: ring_congruence)
qed

lemma queue_invI:
  assumes "length (queue_data q) = unat (maximum_capacity q)"
    and "unat (current_size q) \<le> unat (maximum_capacity q)"
    and "unat (first q) < unat (maximum_capacity q)"
    and "unat (last_ix q) = (unat (first q) + unat (current_size q)) mod unat (maximum_capacity q)"
  shows "queue_inv q"
proof -
  have l: "unat (last_ix q) < unat (maximum_capacity q)"
    using assms(3,4) by simp
  then have "int (unat (current_size q)) mod int (unat (maximum_capacity q)) =
      (int (unat (last_ix q)) - int (unat (first q))) mod int (unat (maximum_capacity q))"
    using assms(4) by (simp only: ring_congruence)
  then have "uint (current_size q) mod uint (maximum_capacity q) =
      (uint (last_ix q) - uint (first q)) mod uint (maximum_capacity q)"
    by (simp only: uint_nat)
  moreover have "current_size q \<le> maximum_capacity q"
    using assms(2) by (simp only: word_le_nat_alt)
  moreover have "first q < maximum_capacity q" "last_ix q < maximum_capacity q"
    using assms(3) l by (simp_all only: word_less_nat_alt)
  ultimately show ?thesis
    using assms(1) unfolding queue_inv_def by blast
qed


lemma room_positive:
  fixes n c :: "64 word"
  assumes "n < c"
  shows "c \<noteq> 0"
  using assms by auto

lemma queue_inv_indices:
  assumes "queue_inv q" "maximum_capacity q \<noteq> 0"
  shows "unat (first q) < length (queue_data q)" "unat (last_ix q) < length (queue_data q)"
  using assms by (simp_all add: queue_inv_def unat_mono)

lemma queue_inv_nonempty:
  assumes "queue_inv q" "0 < current_size q"
  shows "maximum_capacity q \<noteq> 0"
  using assms by (auto simp: queue_inv_def)

lemma enqueued_inv:
  assumes inv: "queue_inv q" and room: "current_size q < maximum_capacity q"
  shows "queue_inv (enqueued q x)"
proof (rule queue_invI)
  have pos: "maximum_capacity q \<noteq> 0" using room by (rule room_positive)
  have n: "unat (current_size q + 1) = Suc (unat (current_size q))"
    using room by (rule unat_succ)
  have l: "last_ix q < maximum_capacity q" using inv pos by (simp add: queue_inv_def)
  have l': "unat ((last_ix q + 1) mod maximum_capacity q) =
      Suc (unat (last_ix q)) mod unat (maximum_capacity q)"
    by (simp only: unat_mod unat_succ [OF l])
  show "length (queue_data (enqueued q x)) = unat (maximum_capacity (enqueued q x))"
    using inv by (simp add: queue_inv_def)
  show "unat (current_size (enqueued q x)) \<le> unat (maximum_capacity (enqueued q x))"
    using room n by (simp add: word_less_nat_alt)
  show "unat (first (enqueued q x)) < unat (maximum_capacity (enqueued q x))"
    using inv pos by (simp add: queue_inv_def unat_mono)
  show "unat (last_ix (enqueued q x)) =
      (unat (first (enqueued q x)) + unat (current_size (enqueued q x))) mod
        unat (maximum_capacity (enqueued q x))"
    using queue_inv_last [OF inv pos] n l' by (simp add: mod_Suc_eq)
qed

lemma length_contents: "length (contents q) = unat (current_size q)"
  by (simp add: contents_def)

lemma enqueued_contents:
  assumes inv: "queue_inv q" and room: "current_size q < maximum_capacity q"
  shows "contents (enqueued q x) = contents q @ [x]"
proof -
  have pos: "maximum_capacity q \<noteq> 0" using room by (rule room_positive)
  have n: "unat (current_size q + 1) = Suc (unat (current_size q))"
    using room by (rule unat_succ)
  have nc: "unat (current_size q) < unat (maximum_capacity q)"
    using room by (rule unat_mono)
  have l: "unat (last_ix q) =
      (unat (first q) + unat (current_size q)) mod unat (maximum_capacity q)"
    using inv pos by (rule queue_inv_last)
  have inb: "unat (last_ix q) < length (queue_data q)"
    using inv pos by (rule queue_inv_indices)
  have old: "(queue_data q)[unat (last_ix q) := x] !
        ((unat (first q) + i) mod unat (maximum_capacity q)) =
      queue_data q ! ((unat (first q) + i) mod unat (maximum_capacity q))"
    if "i < unat (current_size q)" for i
    using ring_distinct [OF that nc, of "unat (first q)"] l by simp
  have new: "(queue_data q)[unat (last_ix q) := x] !
        ((unat (first q) + unat (current_size q)) mod unat (maximum_capacity q)) = x"
    using inb l by simp
  show ?thesis
    by (simp add: contents_def n old new)
qed

lemma dequeued_inv:
  assumes inv: "queue_inv q" and some: "0 < current_size q"
  shows "queue_inv (dequeued q)"
proof (rule queue_invI)
  have pos: "maximum_capacity q \<noteq> 0" using inv some by (rule queue_inv_nonempty)
  have cpos: "0 < unat (maximum_capacity q)" using pos by (simp add: unat_gt_0)
  have n: "unat (current_size q - 1) = unat (current_size q) - 1"
    using some by (rule unat_pred)
  have n0: "0 < unat (current_size q)" using some by (simp add: word_less_nat_alt)
  have f: "first q < maximum_capacity q" using inv pos by (simp add: queue_inv_def)
  have f': "unat ((first q + 1) mod maximum_capacity q) =
      Suc (unat (first q)) mod unat (maximum_capacity q)"
    by (simp only: unat_mod unat_succ [OF f])
  show "length (queue_data (dequeued q)) = unat (maximum_capacity (dequeued q))"
    using inv by (simp add: queue_inv_def)
  show "unat (current_size (dequeued q)) \<le> unat (maximum_capacity (dequeued q))"
    using inv n by (auto simp: queue_inv_def word_le_nat_alt)
  show "unat (first (dequeued q)) < unat (maximum_capacity (dequeued q))"
    using cpos f' by simp
  have "(Suc (unat (first q)) mod unat (maximum_capacity q) + (unat (current_size q) - 1)) mod
        unat (maximum_capacity q) =
      Suc (unat (first q) + (unat (current_size q) - 1)) mod unat (maximum_capacity q)"
    by (rule ring_next)
  then show "unat (last_ix (dequeued q)) =
      (unat (first (dequeued q)) + unat (current_size (dequeued q))) mod
        unat (maximum_capacity (dequeued q))"
    using queue_inv_last [OF inv pos] n n0 f' by simp
qed

lemma dequeued_contents:
  assumes inv: "queue_inv q" and some: "0 < current_size q"
  shows "contents q = queue_data q ! unat (first q) # contents (dequeued q)"
proof -
  have pos: "maximum_capacity q \<noteq> 0" using inv some by (rule queue_inv_nonempty)
  have n: "unat (current_size q - 1) = unat (current_size q) - 1"
    using some by (rule unat_pred)
  have n0: "0 < unat (current_size q)" using some by (simp add: word_less_nat_alt)
  have f: "first q < maximum_capacity q" using inv pos by (simp add: queue_inv_def)
  have f': "unat ((first q + 1) mod maximum_capacity q) =
      Suc (unat (first q)) mod unat (maximum_capacity q)"
    by (simp only: unat_mod unat_succ [OF f])
  have split: "[0..<unat (current_size q)] = 0 # map Suc [0..<unat (current_size q) - 1]"
    using n0 by (simp add: map_Suc_upt upt_conv_Cons)
  have hd: "unat (first q) mod unat (maximum_capacity q) = unat (first q)"
    using f by (simp add: unat_mono)
  show ?thesis
    unfolding contents_def
    by (subst split) (simp add: n f' hd ring_next o_def)
qed

section \<open>The calls on a queue that satisfies the invariant\<close>

lemma push_room:
  assumes "queue_inv q" "current_size q < maximum_capacity q"
  shows "safe_queue_push q x = Some (Returned (), enqueued q x)"
proof -
  have "cv_wait (\<lambda>q. current_size q < maximum_capacity q) q = Some ()"
    using assms(2) by (simp add: cv_wait_holds)
  moreover have "maximum_capacity q \<noteq> 0" using assms(2) by (rule room_positive)
  moreover from this have "unat (last_ix q) < length (queue_data q)"
    using assms(1) by (simp add: queue_inv_indices)
  ultimately show ?thesis by (simp add: safe_queue_push_def)
qed

lemma push_full:
  assumes "\<not> current_size q < maximum_capacity q"
  shows "safe_queue_push q x = None"
  using assms by (simp add: safe_queue_push_def cv_wait_never)

lemma push_for_room:
  assumes "queue_inv q" "current_size q < maximum_capacity q"
  shows "safe_queue_push_for q x t w = (Returned True, enqueued q x)"
proof -
  have "maximum_capacity q \<noteq> 0" using assms(2) by (rule room_positive)
  moreover from this have "unat (last_ix q) < length (queue_data q)"
    using assms(1) by (simp add: queue_inv_indices)
  ultimately show ?thesis using assms(2) by (simp add: safe_queue_push_for_def push_wait_eq)
qed

lemma push_for_full:
  assumes "\<not> current_size q < maximum_capacity q"
  shows "safe_queue_push_for q x t w = (Thrown PushTimeout, q)"
  using assms by (simp add: safe_queue_push_for_def push_wait_eq)

lemma pop_some:
  assumes "queue_inv q" "0 < current_size q"
  shows "safe_queue_pop q = Some (Returned (queue_data q ! unat (first q)), dequeued q)"
proof -
  have "cv_wait (\<lambda>q. 0 < current_size q) q = Some ()"
    using assms(2) by (simp add: cv_wait_holds)
  moreover have "maximum_capacity q \<noteq> 0" using assms by (rule queue_inv_nonempty)
  moreover from this have "unat (first q) < length (queue_data q)"
    using assms(1) by (simp add: queue_inv_indices)
  ultimately show ?thesis by (simp add: safe_queue_pop_def)
qed

lemma pop_none:
  assumes "\<not> 0 < current_size q"
  shows "safe_queue_pop q = None"
  using assms by (simp add: safe_queue_pop_def cv_wait_never)

lemma pop_for_some:
  assumes "queue_inv q" "0 < current_size q"
  shows "safe_queue_pop_for q y t w =
    (Returned True, queue_data q ! unat (first q), dequeued q)"
proof -
  have "maximum_capacity q \<noteq> 0" using assms by (rule queue_inv_nonempty)
  moreover from this have "unat (first q) < length (queue_data q)"
    using assms(1) by (simp add: queue_inv_indices)
  ultimately show ?thesis using assms(2) by (simp add: safe_queue_pop_for_def pop_wait_eq)
qed

lemma pop_for_none:
  assumes "\<not> 0 < current_size q"
  shows "safe_queue_pop_for q y t w = (Thrown PopTimeout, y, q)"
  using assms by (simp add: safe_queue_pop_for_def pop_wait_eq)

lemma contents_empty: "contents q = [] \<longleftrightarrow> \<not> 0 < current_size q"
  by (simp add: contents_def word_less_nat_alt)

lemma contents_full:
  "length (contents q) = unat (maximum_capacity q) \<longleftrightarrow> current_size q = maximum_capacity q"
  by (simp add: length_contents word_unat_eq_iff)

lemma contents_room:
  "length (contents q) < unat (maximum_capacity q) \<longleftrightarrow> current_size q < maximum_capacity q"
  by (simp add: length_contents word_less_nat_alt)

lemma call_refines:
  assumes inv: "queue_inv q"
  shows "fifo_call c (abstract q) =
      (fst (safe_queue_call c q), abstract (snd (safe_queue_call c q)))"
proof (cases c)
  case Size
  then show ?thesis by (simp add: abstract_def safe_queue_size_def length_contents)
next
  case Empty
  then show ?thesis
    by (simp add: abstract_def safe_queue_empty_def contents_empty word_greater_zero_iff)
next
  case Full
  then show ?thesis by (simp add: abstract_def safe_queue_full_def contents_full)
next
  case (Push x)
  show ?thesis
  proof (cases "current_size q < maximum_capacity q")
    case True
    with inv Push show ?thesis
      by (simp add: abstract_def contents_room push_room enqueued_contents)
  next
    case False
    with Push show ?thesis by (simp add: abstract_def contents_room push_full)
  qed
next
  case (PushFor x t w)
  show ?thesis
  proof (cases "current_size q < maximum_capacity q")
    case True
    with inv PushFor show ?thesis
      by (simp add: abstract_def contents_room push_for_room enqueued_contents)
  next
    case False
    with PushFor show ?thesis by (simp add: abstract_def contents_room push_for_full)
  qed
next
  case Pop
  show ?thesis
  proof (cases "0 < current_size q")
    case True
    with inv Pop show ?thesis
      by (simp add: abstract_def pop_some dequeued_contents [of q])
  next
    case False
    then have "contents q = []" by (simp add: contents_empty)
    with False Pop show ?thesis by (simp add: abstract_def pop_none)
  qed
next
  case (PopFor y t w)
  show ?thesis
  proof (cases "0 < current_size q")
    case True
    with inv PopFor show ?thesis
      by (simp add: abstract_def pop_for_some dequeued_contents [of q])
  next
    case False
    then have "contents q = []" by (simp add: contents_empty)
    with False PopFor show ?thesis by (simp add: abstract_def pop_for_none)
  qed
qed

lemma call_inv:
  assumes inv: "queue_inv q"
  shows "queue_inv (snd (safe_queue_call c q))"
proof (cases c)
  case (Push x)
  with inv show ?thesis
    by (cases "current_size q < maximum_capacity q") (simp_all add: push_room push_full enqueued_inv)
next
  case (PushFor x t w)
  with inv show ?thesis
    by (cases "current_size q < maximum_capacity q")
      (simp_all add: push_for_room push_for_full enqueued_inv)
next
  case Pop
  with inv show ?thesis
    by (cases "0 < current_size q") (simp_all add: pop_some pop_none dequeued_inv)
next
  case (PopFor y t w)
  with inv show ?thesis
    by (cases "0 < current_size q") (simp_all add: pop_for_some pop_for_none dequeued_inv)
qed (use inv in simp_all)


section \<open>Refinement of the bounded FIFO\<close>

lemma new_inv: "queue_inv (safe_queue_new c fill)"
  by (simp add: queue_inv_def safe_queue_new_def word_greater_zero_iff)

lemma new_abstract: "abstract (safe_queue_new c fill) = (c, [])"
  by (simp add: abstract_def contents_def safe_queue_new_def)

lemma run_refines:
  assumes "queue_inv q"
  shows "run fifo_call cs (abstract q) =
      (fst (run safe_queue_call cs q), abstract (snd (run safe_queue_call cs q))) \<and>
    queue_inv (snd (run safe_queue_call cs q))"
  using assms
proof (induction cs arbitrary: q)
  case Nil
  then show ?case by simp
next
  case (Cons c cs)
  obtain r q' where step: "safe_queue_call c q = (r, q')" by (cases "safe_queue_call c q")
  have abs: "fifo_call c (abstract q) = (r, abstract q')"
    using call_refines [OF Cons.prems, of c] step by simp
  have inv': "queue_inv q'"
    using call_inv [OF Cons.prems, of c] step by simp
  show ?case
  proof (cases "halts r")
    case True
    with step abs inv' show ?thesis by simp
  next
    case False
    with step abs Cons.IH [OF inv'] show ?thesis
      by (simp add: case_prod_beta)
  qed
qed

lemma pushes_Cons: "pushes (c # cs) (r # rs) = pushed c r @ pushes cs rs"
  by (simp add: pushes_def)

lemma pops_Cons: "pops (c # cs) (r # rs) = popped c r @ pops cs rs"
  by (simp add: pops_def)

lemma pushes_Nil: "pushes cs [] = []" "pushes [] rs = []"
  by (simp_all add: pushes_def)

lemma pops_Nil: "pops cs [] = []" "pops [] rs = []"
  by (simp_all add: pops_def)

lemma fifo_call_order:
  assumes "fifo_call c (k, xs) = (r, k', ys)"
  shows "k' = k \<and> xs @ pushed c r = popped c r @ ys"
  using assms by (cases c) (auto split: if_splits list.splits)

lemma fifo_run_order:
  assumes "run fifo_call cs (k, xs) = (rs, k', ys)"
  shows "k' = k \<and> xs @ pushes cs rs = pops cs rs @ ys"
  using assms
proof (induction cs arbitrary: xs rs)
  case Nil
  then show ?case by (simp add: pushes_Nil pops_Nil)
next
  case (Cons c cs)
  obtain r k1 zs where step: "fifo_call c (k, xs) = (r, k1, zs)"
    by (cases "fifo_call c (k, xs)") auto
  then have one: "k1 = k" "xs @ pushed c r = popped c r @ zs"
    using fifo_call_order by blast+
  show ?case
  proof (cases "halts r")
    case True
    with Cons.prems step one show ?thesis
      by (auto simp: pushes_Cons pops_Cons pushes_Nil pops_Nil)
  next
    case False
    obtain rs' where rest: "run fifo_call cs (k, zs) = (rs', k', ys)" "rs = r # rs'"
      using Cons.prems step False one(1) by (auto split: prod.splits)
    from Cons.IH [OF rest(1)] have "k' = k" "zs @ pushes cs rs' = pops cs rs' @ ys" by simp_all
    with one rest(2) show ?thesis
      by (simp add: pushes_Cons pops_Cons) (metis append.assoc)
  qed
qed

lemma run_order:
  assumes "queue_inv q"
  shows "contents q @ pushes cs (fst (run safe_queue_call cs q)) =
      pops cs (fst (run safe_queue_call cs q)) @ contents (snd (run safe_queue_call cs q))"
    and "maximum_capacity (snd (run safe_queue_call cs q)) = maximum_capacity q"
proof -
  have "run fifo_call cs (maximum_capacity q, contents q) =
      (fst (run safe_queue_call cs q),
       maximum_capacity (snd (run safe_queue_call cs q)),
       contents (snd (run safe_queue_call cs q)))"
    using run_refines [OF assms, of cs] by (simp add: abstract_def)
  from fifo_run_order [OF this]
  show "contents q @ pushes cs (fst (run safe_queue_call cs q)) =
      pops cs (fst (run safe_queue_call cs q)) @ contents (snd (run safe_queue_call cs q))"
    and "maximum_capacity (snd (run safe_queue_call cs q)) = maximum_capacity q"
    by simp_all
qed

section \<open>States that a client can reach\<close>

lemmas concrete_run =
  safe_queue_new_def safe_queue_size_def safe_queue_empty_def safe_queue_full_def
  safe_queue_push_def safe_queue_push_for_def safe_queue_pop_def safe_queue_pop_for_def
  safe_queue_push_wait_def safe_queue_pop_wait_def
  cv_wait_holds cv_wait_never wait_for_def upt_rec

lemma reachable_inv: "queue_inv (snd (run safe_queue_call cs (safe_queue_new c fill)))"
  using run_refines [OF new_inv] by blast

lemma reachable_capacity:
  "maximum_capacity (snd (run safe_queue_call cs (safe_queue_new c fill))) = c"
  using run_order(2) [OF new_inv, of cs c fill] by (simp add: safe_queue_new_def)

lemma reachable_contents:
  "pushes cs (fst (run safe_queue_call cs (safe_queue_new c fill))) =
   pops cs (fst (run safe_queue_call cs (safe_queue_new c fill))) @
   contents (snd (run safe_queue_call cs (safe_queue_new c fill)))"
  using run_order(1) [OF new_inv, of c fill cs] new_abstract [of c fill]
  by (simp add: abstract_def)

lemma reachable_state:
  assumes "run safe_queue_call cs (safe_queue_new c fill) = (rs, q)"
  shows "queue_inv q" and "maximum_capacity q = c"
    and "pushes cs rs = pops cs rs @ contents q"
  using reachable_inv [of cs c fill] reachable_capacity [of cs c fill]
    reachable_contents [of cs c fill] assms
  by simp_all

lemma call_moves:
  assumes inv: "queue_inv q"
  shows "maximum_capacity (snd (safe_queue_call c q)) = maximum_capacity q \<and>
    (first (snd (safe_queue_call c q)) = first q \<or>
     first (snd (safe_queue_call c q)) = (first q + 1) mod maximum_capacity q) \<and>
    (last_ix (snd (safe_queue_call c q)) = last_ix q \<or>
     last_ix (snd (safe_queue_call c q)) = (last_ix q + 1) mod maximum_capacity q)"
proof (cases c)
  case (Push x)
  with inv show ?thesis
    by (cases "current_size q < maximum_capacity q") (simp_all add: push_room push_full)
next
  case (PushFor x t w)
  with inv show ?thesis
    by (cases "current_size q < maximum_capacity q") (simp_all add: push_for_room push_for_full)
next
  case Pop
  with inv show ?thesis
    by (cases "0 < current_size q") (simp_all add: pop_some pop_none)
next
  case (PopFor y t w)
  with inv show ?thesis
    by (cases "0 < current_size q") (simp_all add: pop_for_some pop_for_none)
qed simp_all

lemma push_for_throws:
  assumes "fst (safe_queue_push_for q x t w) = Thrown PushTimeout"
  shows "\<not> current_size q < maximum_capacity q"
  using assms by (auto simp: safe_queue_push_for_def push_wait_eq split: if_splits)

lemma pop_for_throws:
  assumes "fst (safe_queue_pop_for q y t w) = Thrown PopTimeout"
  shows "\<not> 0 < current_size q"
  using assms by (auto simp: safe_queue_pop_for_def pop_wait_eq split: if_splits)

lemma no_capacity_no_items:
  assumes "queue_inv q" "maximum_capacity q = 0"
  shows "current_size q = 0"
  using assms by (simp add: queue_inv_def)

lemma pops_none:
  assumes "\<forall>k \<in> set cs. \<not> is_pop k"
  shows "pops cs rs = []"
  using assms
proof (induction cs arbitrary: rs)
  case Nil
  then show ?case by (simp add: pops_Nil)
next
  case (Cons k cs)
  show ?case
  proof (cases rs)
    case Nil
    then show ?thesis by (simp add: pops_Nil)
  next
    case (Cons r rs')
    have "popped k r = []" using Cons.prems by (cases k) simp_all
    with Cons Cons.IH [of rs'] Cons.prems show ?thesis by (simp add: pops_Cons)
  qed
qed

text \<open>
  As many untimed pushes as the capacity allows all return on a fresh queue, so for every
  capacity there is a sequence of calls that fills the queue.
\<close>

lemma fifo_pushes_succeed:
  assumes "length ys + length xs \<le> unat c"
  shows "run fifo_call (map Push xs) (c, ys) = (replicate (length xs) Done, c, ys @ xs)"
  using assms by (induction xs arbitrary: ys) simp_all

lemma pushes_succeed:
  assumes "length xs \<le> unat c"
  shows "fst (run safe_queue_call (map Push xs) (safe_queue_new c fill)) =
      replicate (length xs) Done \<and>
    pushes (map Push xs) (replicate (length xs) Done) = xs"
proof -
  have "run fifo_call (map Push xs) (c, []) = (replicate (length xs) Done, c, [] @ xs)"
    using assms by (intro fifo_pushes_succeed) simp
  then have "fst (run safe_queue_call (map Push xs) (safe_queue_new c fill)) =
      replicate (length xs) Done"
    using run_refines [OF new_inv, of "map Push xs" c fill] by (simp add: new_abstract)
  moreover have "pushes (map Push xs) (replicate (length xs) Done) = xs"
    by (induction xs) (simp_all add: pushes_def)
  ultimately show ?thesis by simp
qed

section \<open>First in, first out\<close>

text \<open>
  Claim C1. On a freshly constructed queue, whatever its capacity and the initial content of
  its slots, and for every sequence of calls made one after the other: the item that the
  \<open>n\<close>-th successful pop returns (timed or not) is the item that the \<open>n\<close>-th successful
  push (timed or not) supplied.
\<close>

theorem fifo_order:
  assumes "run safe_queue_call cs (safe_queue_new c fill) = (rs, q)"
    and "n < length (pops cs rs)"
  shows "n < length (pushes cs rs) \<and> pops cs rs ! n = pushes cs rs ! n"
proof -
  have "pushes cs rs = pops cs rs @ contents q"
    using reachable_contents [of cs c fill] assms(1) by simp
  with assms(2) show ?thesis by (simp add: nth_append)
qed

theorem fifo_order_witness:
  "run safe_queue_call [Push 10, Push 20, Pop, Push 30, PopFor 0 5 1, Pop] (safe_queue_new 2 id)
     = ([Done, Done, Item 10, Done, FlagItem True 20, Item 30],
        \<lparr>queue_data = [30, 20 :: nat], maximum_capacity = 2, current_size = 0,
         first = 1, last_ix = 1\<rparr>)
   \<and> 2 < length (pops [Push 10, Push 20, Pop, Push 30, PopFor 0 5 1, Pop]
        [Done, Done, Item 10, Done, FlagItem True 20, Item (30 :: nat)])
   \<and> pops [Push 10, Push 20, Pop, Push 30, PopFor 0 5 1, Pop]
        [Done, Done, Item 10, Done, FlagItem True 20, Item 30] ! 2 = (30 :: nat)
   \<and> pushes [Push 10, Push 20, Pop, Push 30, PopFor 0 5 1, Pop]
        [Done, Done, Item 10, Done, FlagItem True 20, Item 30] ! 2 = (30 :: nat)"
proof -
  have r: "run safe_queue_call [Push 10, Push 20, Pop, Push 30, PopFor 0 5 1, Pop]
      (safe_queue_new 2 id)
     = ([Done, Done, Item 10, Done, FlagItem True 20, Item 30],
        \<lparr>queue_data = [30, 20 :: nat], maximum_capacity = 2, current_size = 0,
         first = 1, last_ix = 1\<rparr>)"
    by (simp add: concrete_run)
  have n: "2 < length (pops [Push 10, Push 20, Pop, Push 30, PopFor 0 5 1, Pop]
        [Done, Done, Item 10, Done, FlagItem True 20, Item (30 :: nat)])"
    by (simp add: pops_def)
  show ?thesis
    using fifo_order [OF r n] r n by (simp add: pops_def)
qed

section \<open>The state invariant\<close>

text \<open>
  With the count required to be equal to the distance from \<open>first\<close> to \<open>last\<close> modulo the
  capacity, the invariant does not survive the push that fills a queue of capacity 1: the
  count is then 1 and the distance modulo 1 is 0.
\<close>

theorem invariant_equal_counterexample:
  "queue_inv_equal (safe_queue_new 1 id :: nat safe_queue) \<and>
   safe_queue_push (safe_queue_new 1 id) (7 :: nat) =
     Some (Returned (),
       \<lparr>queue_data = [7], maximum_capacity = 1, current_size = 1, first = 0, last_ix = 0\<rparr>) \<and>
   \<not> queue_inv_equal
     \<lparr>queue_data = [7 :: nat], maximum_capacity = 1, current_size = 1, first = 0, last_ix = 0\<rparr>"
  by (simp add: queue_inv_equal_def concrete_run)

text \<open>
  Claim C2, amended. A fresh queue satisfies the state invariant, and every call
  (\<open>size\<close>, \<open>empty\<close>, \<open>full\<close>, both pushes, both pops) on a queue that satisfies it leaves a
  queue that satisfies it: the count is at most the capacity, for a positive capacity both
  indices are below it and the count is congruent, modulo the capacity, to the distance from
  \<open>first\<close> to \<open>last\<close>. The capacity stays, and each index either stays or moves to its
  successor modulo the capacity.
\<close>

theorem invariant_preserved:
  assumes "queue_inv q"
  shows "queue_inv (safe_queue_new c fill) \<and>
    queue_inv (snd (safe_queue_call call q)) \<and>
    maximum_capacity (snd (safe_queue_call call q)) = maximum_capacity q \<and>
    (first (snd (safe_queue_call call q)) = first q \<or>
     first (snd (safe_queue_call call q)) = (first q + 1) mod maximum_capacity q) \<and>
    (last_ix (snd (safe_queue_call call q)) = last_ix q \<or>
     last_ix (snd (safe_queue_call call q)) = (last_ix q + 1) mod maximum_capacity q)"
  using call_inv [OF assms, of call] call_moves [OF assms, of call] new_inv [of c fill]
  by blast

theorem invariant_preserved_witness:
  "queue_inv \<lparr>queue_data = [7 :: nat], maximum_capacity = 1, current_size = 1,
     first = 0, last_ix = 0\<rparr> \<and>
   safe_queue_call Pop \<lparr>queue_data = [7 :: nat], maximum_capacity = 1, current_size = 1,
     first = 0, last_ix = 0\<rparr> =
     (Item 7, \<lparr>queue_data = [7], maximum_capacity = 1, current_size = 0,
        first = 0, last_ix = 0\<rparr>) \<and>
   queue_inv \<lparr>queue_data = [7 :: nat], maximum_capacity = 1, current_size = 0,
     first = 0, last_ix = 0\<rparr>"
proof -
  have h: "queue_inv \<lparr>queue_data = [7 :: nat], maximum_capacity = 1, current_size = 1,
     first = 0, last_ix = 0\<rparr>"
    by (simp add: queue_inv_def)
  have r: "safe_queue_call Pop \<lparr>queue_data = [7 :: nat], maximum_capacity = 1,
     current_size = 1, first = 0, last_ix = 0\<rparr> =
     (Item 7, \<lparr>queue_data = [7], maximum_capacity = 1, current_size = 0,
        first = 0, last_ix = 0\<rparr>)"
    by (simp add: concrete_run)
  show ?thesis
    using invariant_preserved [OF h, of 1 id Pop] h r by simp
qed

section \<open>Timeouts\<close>

text \<open>
  Claim C3. A timed push on a queue without room, whatever the timeout and the wake-ups,
  throws the push timeout and leaves the array, the count and both indices as they were; and
  whenever a timed push throws the push timeout, the queue is as it was.
\<close>

theorem push_timeout_unchanged:
  "(\<not> current_size q < maximum_capacity q \<longrightarrow>
      safe_queue_push_for q item timeout wakeups = (Thrown PushTimeout, q)) \<and>
   (fst (safe_queue_push_for q item timeout wakeups) = Thrown PushTimeout \<longrightarrow>
      snd (safe_queue_push_for q item timeout wakeups) = q)"
  using push_for_full [of q item timeout wakeups] push_for_throws [of q item timeout wakeups]
  by auto

theorem push_timeout_unchanged_witness:
  "\<not> current_size \<lparr>queue_data = [7 :: nat], maximum_capacity = 1, current_size = 1,
       first = 0, last_ix = 0\<rparr>
     < maximum_capacity \<lparr>queue_data = [7 :: nat], maximum_capacity = 1, current_size = 1,
       first = 0, last_ix = 0\<rparr> \<and>
   safe_queue_push_for \<lparr>queue_data = [7 :: nat], maximum_capacity = 1, current_size = 1,
       first = 0, last_ix = 0\<rparr> 8 10 3 =
     (Thrown PushTimeout, \<lparr>queue_data = [7], maximum_capacity = 1, current_size = 1,
       first = 0, last_ix = 0\<rparr>)"
  using push_timeout_unchanged [of "\<lparr>queue_data = [7 :: nat], maximum_capacity = 1,
    current_size = 1, first = 0, last_ix = 0\<rparr>" 8 10 3]
  by simp

text \<open>
  Claim C4. A timed pop on a queue without items, whatever the timeout and the wake-ups,
  throws the pop timeout and leaves the variable behind the reference and the queue as they
  were; and whenever a timed pop throws the pop timeout, both are as they were.
\<close>

theorem pop_timeout_unchanged:
  "(\<not> 0 < current_size q \<longrightarrow>
      safe_queue_pop_for q item timeout wakeups = (Thrown PopTimeout, item, q)) \<and>
   (fst (safe_queue_pop_for q item timeout wakeups) = Thrown PopTimeout \<longrightarrow>
      snd (safe_queue_pop_for q item timeout wakeups) = (item, q))"
  using pop_for_none [of q item timeout wakeups] pop_for_throws [of q item timeout wakeups]
  by auto

theorem pop_timeout_unchanged_witness:
  "\<not> 0 < current_size (safe_queue_new 5 id :: nat safe_queue) \<and>
   safe_queue_pop_for (safe_queue_new 5 id) (99 :: nat) 50 2 =
     (Thrown PopTimeout, 99, safe_queue_new 5 id)"
  using pop_timeout_unchanged [of "safe_queue_new 5 id :: nat safe_queue" 99 50 2]
  by (simp add: safe_queue_new_def)

section \<open>Capacity zero and a full queue\<close>

text \<open>
  Claim C5. In every state that a sequence of calls reaches from a fresh queue of capacity 0,
  \<open>empty\<close> and \<open>full\<close> both answer true, every timed push throws the push timeout and every
  timed pop throws the pop timeout.
\<close>

theorem capacity_zero:
  assumes "run safe_queue_call cs (safe_queue_new 0 fill) = (rs, q)"
  shows "safe_queue_empty q \<and> safe_queue_full q \<and>
    safe_queue_push_for q x t w = (Thrown PushTimeout, q) \<and>
    safe_queue_pop_for q y t' w' = (Thrown PopTimeout, y, q)"
proof -
  have cap: "maximum_capacity q = 0"
    using assms by (rule reachable_state)
  have "queue_inv q"
    using assms by (rule reachable_state)
  then have n: "current_size q = 0" using cap by (rule no_capacity_no_items)
  show ?thesis
    using cap n
    by (simp add: safe_queue_empty_def safe_queue_full_def push_for_full pop_for_none)
qed

theorem capacity_zero_witness:
  "run safe_queue_call [PushFor 1 10 0, Size, PopFor 2 10 0, Full] (safe_queue_new 0 id) =
     ([Throws PushTimeout, Count 0, Throws PopTimeout, Flag True],
      safe_queue_new 0 id :: nat safe_queue) \<and>
   safe_queue_empty (safe_queue_new 0 id :: nat safe_queue) \<and>
   safe_queue_full (safe_queue_new 0 id :: nat safe_queue) \<and>
   safe_queue_push_for (safe_queue_new 0 id) (1 :: nat) 10 0 =
     (Thrown PushTimeout, safe_queue_new 0 id) \<and>
   safe_queue_pop_for (safe_queue_new 0 id) (2 :: nat) 10 0 =
     (Thrown PopTimeout, 2, safe_queue_new 0 id)"
proof -
  have h: "run safe_queue_call [PushFor 1 10 0, Size, PopFor 2 10 0, Full]
      (safe_queue_new 0 id) =
     ([Throws PushTimeout, Count 0, Throws PopTimeout, Flag True],
      safe_queue_new 0 id :: nat safe_queue)"
    by (simp add: concrete_run)
  show ?thesis
    using capacity_zero [OF h, of 1 10 0 2 10 0] h by simp
qed

text \<open>
  Claim C6. For every capacity \<open>c\<close>: when a sequence of calls without any pop has run on a
  fresh queue and exactly \<open>c\<close> of its pushes succeeded, \<open>full\<close> answers true, \<open>size\<close>
  answers \<open>c\<close>, and a further timed push throws the push timeout and leaves the queue as it
  was.
\<close>

theorem filled_to_capacity:
  assumes "run safe_queue_call cs (safe_queue_new c fill) = (rs, q)"
    and "\<forall>k \<in> set cs. \<not> is_pop k"
    and "length (pushes cs rs) = unat c"
  shows "safe_queue_full q \<and> safe_queue_size q = c \<and>
    safe_queue_push_for q x t w = (Thrown PushTimeout, q)"
proof -
  have cap: "maximum_capacity q = c"
    using assms(1) by (rule reachable_state)
  have "pushes cs rs = pops cs rs @ contents q"
    using assms(1) by (rule reachable_state)
  then have "length (contents q) = unat c"
    using pops_none [OF assms(2), of rs] assms(3) by simp
  then have n: "current_size q = c"
    by (simp add: length_contents word_unat_eq_iff)
  show ?thesis
    using cap n by (simp add: safe_queue_full_def safe_queue_size_def push_for_full)
qed

theorem filled_to_capacity_witness:
  "run safe_queue_call [Push 1, Empty, PushFor 2 100 1, Push 3] (safe_queue_new 3 id) =
     ([Done, Flag False, Flag True, Done],
      \<lparr>queue_data = [1, 2, 3 :: nat], maximum_capacity = 3, current_size = 3,
        first = 0, last_ix = 0\<rparr>) \<and>
   length (pushes [Push 1, Empty, PushFor 2 100 1, Push (3 :: nat)]
     [Done, Flag False, Flag True, Done]) = unat (3 :: 64 word) \<and>
   safe_queue_full \<lparr>queue_data = [1, 2, 3 :: nat], maximum_capacity = 3, current_size = 3,
        first = 0, last_ix = 0\<rparr> \<and>
   safe_queue_size \<lparr>queue_data = [1, 2, 3 :: nat], maximum_capacity = 3, current_size = 3,
        first = 0, last_ix = 0\<rparr> = 3 \<and>
   safe_queue_push_for \<lparr>queue_data = [1, 2, 3 :: nat], maximum_capacity = 3,
        current_size = 3, first = 0, last_ix = 0\<rparr> 4 50 0 =
     (Thrown PushTimeout, \<lparr>queue_data = [1, 2, 3], maximum_capacity = 3, current_size = 3,
        first = 0, last_ix = 0\<rparr>)"
proof -
  have r: "run safe_queue_call [Push 1, Empty, PushFor 2 100 1, Push 3] (safe_queue_new 3 id) =
     ([Done, Flag False, Flag True, Done],
      \<lparr>queue_data = [1, 2, 3 :: nat], maximum_capacity = 3, current_size = 3,
        first = 0, last_ix = 0\<rparr>)"
    by (simp add: concrete_run)
  have p: "\<forall>k \<in> set [Push 1, Empty, PushFor 2 100 1, Push (3 :: nat)]. \<not> is_pop k"
    by simp
  have n: "length (pushes [Push 1, Empty, PushFor 2 100 1, Push (3 :: nat)]
     [Done, Flag False, Flag True, Done]) = unat (3 :: 64 word)"
    by (simp add: pushes_def)
  show ?thesis
    using filled_to_capacity [OF r p n, of 4 50 0] r n by simp
qed


section \<open>Round trip\<close>

text \<open>
  Claim C7. In every state that a sequence of calls reaches from a fresh queue of positive
  capacity and in which the queue is empty, \<open>push x\<close> returns, and the \<open>pop\<close> that follows
  it returns \<open>x\<close> and leaves the queue empty.
\<close>

theorem round_trip:
  assumes "run safe_queue_call cs (safe_queue_new c fill) = (rs, q)"
    and "c \<noteq> 0"
    and "safe_queue_empty q"
  shows "safe_queue_push q x = Some (Returned (), enqueued q x) \<and>
    safe_queue_pop (enqueued q x) = Some (Returned x, dequeued (enqueued q x)) \<and>
    safe_queue_empty (dequeued (enqueued q x))"
proof -
  have inv: "queue_inv q" using assms(1) by (rule reachable_state)
  have cap: "maximum_capacity q = c" using assms(1) by (rule reachable_state)
  have n: "current_size q = 0" using assms(3) by (simp add: safe_queue_empty_def)
  have room: "current_size q < maximum_capacity q"
    using n cap assms(2) by (simp add: word_greater_zero_iff)
  have inv1: "queue_inv (enqueued q x)" using inv room by (rule enqueued_inv)
  have one: "0 < current_size (enqueued q x)" using n by simp
  have "contents (enqueued q x) = [x]"
    using enqueued_contents [OF inv room, of x] n contents_empty [of q] by simp
  then have "queue_data (enqueued q x) ! unat (first (enqueued q x)) = x"
    using dequeued_contents [OF inv1 one] by simp
  then have "safe_queue_pop (enqueued q x) = Some (Returned x, dequeued (enqueued q x))"
    using pop_some [OF inv1 one] by simp
  moreover have "safe_queue_push q x = Some (Returned (), enqueued q x)"
    using inv room by (rule push_room)
  moreover have "safe_queue_empty (dequeued (enqueued q x))"
    using n by (simp add: safe_queue_empty_def)
  ultimately show ?thesis by blast
qed

theorem round_trip_witness:
  "run safe_queue_call [Push 5, Pop] (safe_queue_new 2 (\<lambda>i. 6)) =
     ([Done, Item 5],
      \<lparr>queue_data = [5, 6 :: nat], maximum_capacity = 2, current_size = 0, first = 1,
        last_ix = 1\<rparr>) \<and>
   (2 :: 64 word) \<noteq> 0 \<and>
   safe_queue_empty \<lparr>queue_data = [5, 6 :: nat], maximum_capacity = 2, current_size = 0,
      first = 1, last_ix = 1\<rparr> \<and>
   safe_queue_push \<lparr>queue_data = [5, 6 :: nat], maximum_capacity = 2, current_size = 0,
      first = 1, last_ix = 1\<rparr> 9 =
     Some (Returned (), \<lparr>queue_data = [5, 9], maximum_capacity = 2, current_size = 1,
       first = 1, last_ix = 0\<rparr>) \<and>
   safe_queue_pop \<lparr>queue_data = [5, 9 :: nat], maximum_capacity = 2, current_size = 1,
       first = 1, last_ix = 0\<rparr> =
     Some (Returned 9, \<lparr>queue_data = [5, 9], maximum_capacity = 2, current_size = 0,
       first = 0, last_ix = 0\<rparr>)"
proof -
  have h: "run safe_queue_call [Push 5, Pop] (safe_queue_new 2 (\<lambda>i. 6)) =
     ([Done, Item 5],
      \<lparr>queue_data = [5, 6 :: nat], maximum_capacity = 2, current_size = 0, first = 1,
        last_ix = 1\<rparr>)"
    by (simp add: concrete_run)
  have c: "(2 :: 64 word) \<noteq> 0" by simp
  have e: "safe_queue_empty \<lparr>queue_data = [5, 6 :: nat], maximum_capacity = 2,
      current_size = 0, first = 1, last_ix = 1\<rparr>"
    by (simp add: safe_queue_empty_def)
  show ?thesis
    using round_trip [OF h c e, of 9] h e by simp
qed

section \<open>A timeout of zero or less\<close>

text \<open>
  With a positive timeout a timed push on a full queue is parked until the deadline and
  evaluates its condition once more for every wake-up.
\<close>

lemma positive_timeout_waits:
  "safe_queue_push_wait
     \<lparr>queue_data = [5 :: nat], maximum_capacity = 1, current_size = 1, first = 0, last_ix = 0\<rparr>
     50 3 = (False, 5, 50)"
  by (simp add: safe_queue_push_wait_def wait_for_def numeral_3_eq_3)




section \<open>No access outside the array, no remainder by zero\<close>

text \<open>
  Claim C10. In every state that a sequence of calls reaches from a fresh queue, none of the
  two pushes and the two pops ends in an access outside the array or in a remainder by
  zero.
\<close>

theorem no_fault:
  assumes "run safe_queue_call cs (safe_queue_new c fill) = (rs, q)"
  shows "safe_queue_push q x \<noteq> Some (Undefined f, q') \<and>
    safe_queue_push_for q x t w \<noteq> (Undefined f, q') \<and>
    safe_queue_pop q \<noteq> Some (Undefined f, q') \<and>
    safe_queue_pop_for q y t w \<noteq> (Undefined f, y', q')"
proof -
  have inv: "queue_inv q" using assms(1) by (rule reachable_state)
  have "safe_queue_push q x \<noteq> Some (Undefined f, q')"
    "safe_queue_push_for q x t w \<noteq> (Undefined f, q')"
    using inv
    by (cases "current_size q < maximum_capacity q";
        simp add: push_room push_full push_for_room push_for_full)+
  moreover have "safe_queue_pop q \<noteq> Some (Undefined f, q')"
    "safe_queue_pop_for q y t w \<noteq> (Undefined f, y', q')"
    using inv
    by (cases "0 < current_size q";
        simp add: pop_some pop_none pop_for_some pop_for_none)+
  ultimately show ?thesis by blast
qed

theorem no_fault_witness:
  "run safe_queue_call [Push 5] (safe_queue_new 1 id) =
     ([Done], \<lparr>queue_data = [5 :: nat], maximum_capacity = 1, current_size = 1, first = 0,
        last_ix = 0\<rparr>) \<and>
   safe_queue_pop \<lparr>queue_data = [5 :: nat], maximum_capacity = 1, current_size = 1,
      first = 0, last_ix = 0\<rparr> \<noteq>
     Some (Undefined DivisionByZero, \<lparr>queue_data = [5 :: nat], maximum_capacity = 1,
       current_size = 1, first = 0, last_ix = 0\<rparr>)"
proof -
  have h: "run safe_queue_call [Push 5] (safe_queue_new 1 id) =
     ([Done], \<lparr>queue_data = [5 :: nat], maximum_capacity = 1, current_size = 1, first = 0,
        last_ix = 0\<rparr>)"
    by (simp add: concrete_run)
  show ?thesis
    using no_fault [OF h, of 6 DivisionByZero "\<lparr>queue_data = [5 :: nat],
      maximum_capacity = 1, current_size = 1, first = 0, last_ix = 0\<rparr>" 0 0 7 7] h
    by blast
qed

section \<open>The three implementations\<close>

lemma ThreadSafeQueue_call_same:
  "safe_queue_call c (of_ThreadSafeQueue q) =
   map_prod id of_ThreadSafeQueue (ThreadSafeQueue_call c q)"
proof (cases c)
  case (Push x)
  then show ?thesis
    by (cases "count q < capacity q")
      (simp_all add: of_ThreadSafeQueue_def safe_queue_push_def ThreadSafeQueue_push_def
        cv_wait_holds cv_wait_never)
next
  case Pop
  then show ?thesis
    by (cases "0 < count q")
      (simp_all add: of_ThreadSafeQueue_def safe_queue_pop_def ThreadSafeQueue_pop_def
        cv_wait_holds cv_wait_never)
qed (simp_all add: of_ThreadSafeQueue_def safe_queue_size_def ThreadSafeQueue_size_def
    safe_queue_empty_def ThreadSafeQueue_empty_def safe_queue_full_def ThreadSafeQueue_full_def
    safe_queue_push_for_def ThreadSafeQueue_push_for_def
    safe_queue_pop_for_def ThreadSafeQueue_pop_for_def wait_for_eq push_wait_eq pop_wait_eq)

lemma queue_cpp_call_same:
  assumes "\<not> is_observer c"
  shows "safe_queue_call c (of_queue_cpp q) = map_prod id of_queue_cpp (queue_cpp_call c q)"
proof (cases c)
  case (Push x)
  then show ?thesis
    by (cases "enqueue_element q < maximum_capacity2 q")
      (simp_all add: of_queue_cpp_def safe_queue_push_def queue_cpp_push_def
        cv_wait_holds cv_wait_never)
next
  case Pop
  then show ?thesis
    by (cases "0 < enqueue_element q")
      (simp_all add: of_queue_cpp_def safe_queue_pop_def queue_cpp_pop_def
        cv_wait_holds cv_wait_never)
qed (use assms in \<open>simp_all add: of_queue_cpp_def
    safe_queue_push_for_def queue_cpp_push_for_def
    safe_queue_pop_for_def queue_cpp_pop_for_def wait_for_eq push_wait_eq pop_wait_eq\<close>)

lemma run_same:
  assumes "\<forall>c \<in> set cs. \<forall>q. call1 c (f q) = map_prod id f (call2 c q)"
  shows "run call1 cs (f q) = map_prod id f (run call2 cs q)"
  using assms
proof (induction cs arbitrary: q)
  case Nil
  show ?case by simp
next
  case (Cons c cs)
  obtain r q' where step: "call2 c q = (r, q')" by (cases "call2 c q")
  then have "call1 c (f q) = (r, f q')" using Cons.prems by simp
  moreover have "run call1 cs (f q') = map_prod id f (run call2 cs q')"
    using Cons.prems by (intro Cons.IH) simp
  ultimately show ?case
    using step by (cases "run call2 cs q'") simp
qed

lemma ThreadSafeQueue_new_same:
  "of_ThreadSafeQueue (ThreadSafeQueue_new c fill) = safe_queue_new c fill"
  by (simp add: of_ThreadSafeQueue_def ThreadSafeQueue_new_def safe_queue_new_def)

lemma queue_cpp_new_same: "of_queue_cpp (queue_cpp_new c fill) = safe_queue_new c fill"
  by (simp add: of_queue_cpp_def queue_cpp_new_def safe_queue_new_def)

lemma ThreadSafeQueue_abstract_same:
  "ThreadSafeQueue_abstract q = abstract (of_ThreadSafeQueue q)"
  by (simp add: ThreadSafeQueue_abstract_def abstract_def contents_def of_ThreadSafeQueue_def)

lemma queue_cpp_abstract_same: "queue_cpp_abstract q = abstract (of_queue_cpp q)"
  by (simp add: queue_cpp_abstract_def abstract_def contents_def of_queue_cpp_def)

lemma fresh_run:
  "run fifo_call cs (c, []) =
     (fst (run safe_queue_call cs (safe_queue_new c fill)),
      abstract (snd (run safe_queue_call cs (safe_queue_new c fill))))"
  using run_refines [OF new_inv, of cs c fill] by (simp add: new_abstract)

lemma fresh_run_fill:
  "fst (run safe_queue_call cs (safe_queue_new c fill')) =
     fst (run safe_queue_call cs (safe_queue_new c fill)) \<and>
   abstract (snd (run safe_queue_call cs (safe_queue_new c fill'))) =
     abstract (snd (run safe_queue_call cs (safe_queue_new c fill)))"
  using fresh_run [of cs c fill'] fresh_run [of cs c fill] by simp

text \<open>
  The queue of queue.h and the queue of enqueue.cpp give the same replies to every sequence
  of calls and end with the same capacity and the same live items, whatever the slots held
  at first.
\<close>

lemma ThreadSafeQueue_agrees:
  "fst (run ThreadSafeQueue_call cs (ThreadSafeQueue_new c fill')) =
     fst (run safe_queue_call cs (safe_queue_new c fill)) \<and>
   ThreadSafeQueue_abstract (snd (run ThreadSafeQueue_call cs (ThreadSafeQueue_new c fill'))) =
     abstract (snd (run safe_queue_call cs (safe_queue_new c fill)))"
proof -
  have "run safe_queue_call cs (safe_queue_new c fill') =
      map_prod id of_ThreadSafeQueue
        (run ThreadSafeQueue_call cs (ThreadSafeQueue_new c fill'))"
    using run_same [of cs safe_queue_call of_ThreadSafeQueue ThreadSafeQueue_call
        "ThreadSafeQueue_new c fill'"]
    by (simp add: ThreadSafeQueue_call_same ThreadSafeQueue_new_same)
  then show ?thesis
    using fresh_run_fill [of cs c fill' fill] by (simp add: ThreadSafeQueue_abstract_same)
qed

text \<open>
  So does the queue of queue.cpp as long as the sequence calls none of \<open>size\<close>, \<open>empty\<close> and
  \<open>full\<close>.
\<close>

lemma queue_cpp_agrees_on_push_pop:
  assumes "\<forall>k \<in> set cs. \<not> is_observer k"
  shows "fst (run queue_cpp_call cs (queue_cpp_new c fill')) =
      fst (run safe_queue_call cs (safe_queue_new c fill)) \<and>
    queue_cpp_abstract (snd (run queue_cpp_call cs (queue_cpp_new c fill'))) =
      abstract (snd (run safe_queue_call cs (safe_queue_new c fill)))"
proof -
  have "run safe_queue_call cs (safe_queue_new c fill') =
      map_prod id of_queue_cpp (run queue_cpp_call cs (queue_cpp_new c fill'))"
    using run_same [of cs safe_queue_call of_queue_cpp queue_cpp_call "queue_cpp_new c fill'"]
      assms
    by (simp add: queue_cpp_call_same queue_cpp_new_same)
  then show ?thesis
    using fresh_run_fill [of cs c fill' fill] by (simp add: queue_cpp_abstract_same)
qed

text \<open>
  Claim C9. The three implementations are not equivalent on every sequence of calls: a client
  that asks the queue of queue.cpp for its size, or whether it is empty or full, is rejected
  by the compiler, because the mutex of that class is not \<^verbatim>\<open>mutable\<close>, while the queues of
  queue.h and enqueue.cpp answer the same three calls on a fresh queue of capacity 1 with 0,
  true and false.
\<close>

theorem queue_cpp_observers_rejected:
  "fst (run queue_cpp_call [Size] (queue_cpp_new 1 id)) = [IllFormed :: nat reply] \<and>
   fst (run queue_cpp_call [Empty] (queue_cpp_new 1 id)) = [IllFormed :: nat reply] \<and>
   fst (run queue_cpp_call [Full] (queue_cpp_new 1 id)) = [IllFormed :: nat reply] \<and>
   fst (run safe_queue_call [Size, Empty, Full] (safe_queue_new 1 id)) =
     [Count 0, Flag True, Flag False :: nat reply] \<and>
   fst (run ThreadSafeQueue_call [Size, Empty, Full] (ThreadSafeQueue_new 1 id)) =
     [Count 0, Flag True, Flag False :: nat reply]"
  by (simp add: concrete_run queue_cpp_size_def queue_cpp_empty_def queue_cpp_full_def
      ThreadSafeQueue_new_def ThreadSafeQueue_size_def ThreadSafeQueue_empty_def
      ThreadSafeQueue_full_def)

end
